theory Spec2Isabelle
  imports Main "HOL-Library.Word" "HOL-Library.Signed_Division"
begin

section \<open>Machine integers and failures of \<open>tensor.hpp\<close>\<close>

text \<open>
  The library computes in C++ \<open>int\<close> (32 bits, two's complement, read through \<open>sint\<close>)
  and \<open>size_t\<close> (64 bits, unsigned, read through \<open>unat\<close>).  A C++ exception is a value
  of \<open>error\<close> that carries the exception class and its message.  Signed overflow, integer
  division by zero and a read beyond the end of a \<open>std::vector\<close> have no defined behaviour
  in C++; the model stops there with \<open>Undefined\<close>, so a result \<open>Inr v\<close> always stands for
  an execution whose every step is defined.
\<close>

type_synonym int32 = "32 word"
type_synonym size_t = "64 word"

datatype undefined_behaviour = SignedOverflow | DivisionByZero | OutOfBoundsRead

datatype error =
    logic_error string
  | invalid_argument string
  | out_of_range string
  | length_error
  | Undefined undefined_behaviour

definition INT_MIN :: int where
  "INT_MIN = - (2 ^ 31)"

definition INT_MAX :: int where
  "INT_MAX = 2 ^ 31 - 1"

text \<open>\<open>a * b\<close> on \<open>int\<close>: defined when the mathematical product is representable.\<close>

definition mul_int :: "int32 \<Rightarrow> int32 \<Rightarrow> error + int32" where
  "mul_int a b =
     (if INT_MIN \<le> sint a * sint b \<and> sint a * sint b \<le> INT_MAX
      then Inr (a * b) else Inl (Undefined SignedOverflow))"

text \<open>\<open>a / b\<close> on \<open>int\<close>: the quotient truncated towards zero; undefined for a zero
  divisor and for \<open>INT_MIN / -1\<close>.\<close>

definition div_int :: "int32 \<Rightarrow> int32 \<Rightarrow> error + int32" where
  "div_int a b =
     (if b = 0 then Inl (Undefined DivisionByZero)
      else if sint a = INT_MIN \<and> sint b = - 1 then Inl (Undefined SignedOverflow)
      else Inr (word_of_int (sint a sdiv sint b)))"

text \<open>The conversions between \<open>int\<close> and \<open>size_t\<close>: sign extension one way, the low
  32 bits the other way.\<close>

definition int_to_size_t :: "int32 \<Rightarrow> size_t" where
  "int_to_size_t x = scast x"

definition size_t_to_int :: "size_t \<Rightarrow> int32" where
  "size_t_to_int n = ucast n"

text \<open>The messages of the exceptions thrown by the library, under the names the
  specification gives to the four error kinds.\<close>

definition InvalidShape :: error where
  "InvalidShape = logic_error ''Shape vector should not be empty''"

definition ShapeMismatch :: error where
  "ShapeMismatch = logic_error ''Input data size does not match tensor shape''"

definition RankMismatch :: error where
  "RankMismatch = invalid_argument ''Position input should match shape dimensions''"

definition IndexOutOfRange :: error where
  "IndexOutOfRange = out_of_range ''Position index out of bounds''"

section \<open>Layout calculator\<close>

text \<open>The loop of \<open>calculate_total\<close>: \<open>total *= shape[i]\<close> for the remaining entries.\<close>

fun total_loop :: "int32 \<Rightarrow> int32 list \<Rightarrow> error + int32" where
  "total_loop tot [] = Inr tot"
| "total_loop tot (d # ds) =
     (case mul_int tot d of
        Inl e \<Rightarrow> Inl e
      | Inr tot' \<Rightarrow> total_loop tot' ds)"

definition calculate_total :: "int32 list \<Rightarrow> error + int32" where
  "calculate_total shape =
     (case shape of
        [] \<Rightarrow> Inl InvalidShape
      | s0 # rest \<Rightarrow> total_loop s0 rest)"

text \<open>The loop of \<open>calculate_stride\<close>: for each \<open>dim\<close>, \<open>stride.push_back(total / dim)\<close>
  and then \<open>total /= dim\<close>.\<close>

fun stride_loop :: "int32 \<Rightarrow> int32 list \<Rightarrow> int32 list \<Rightarrow> error + int32 list" where
  "stride_loop tot [] stride = Inr stride"
| "stride_loop tot (dim # dims) stride =
     (case div_int tot dim of
        Inl e \<Rightarrow> Inl e
      | Inr q \<Rightarrow>
          (case div_int tot dim of
             Inl e \<Rightarrow> Inl e
           | Inr tot' \<Rightarrow> stride_loop tot' dims (stride @ [q])))"

definition calculate_stride :: "int32 list \<Rightarrow> int32 \<Rightarrow> error + int32 list" where
  "calculate_stride shape tot =
     (if shape = [] then Inl InvalidShape
      else
        (case (if tot = 0 then calculate_total shape else Inr tot) of
           Inl e \<Rightarrow> Inl e
         | Inr tot' \<Rightarrow> stride_loop tot' shape []))"

section \<open>Tensor\<close>

record 'a Tensor =
  shape :: "int32 list"
  stride :: "int32 list"
  elements :: "'a list"
  total_elements :: size_t

text \<open>\<open>std::vector::resize\<close>: larger than \<open>max_size()\<close> throws \<open>std::length_error\<close>;
  otherwise the vector is cut or filled up with value-initialised entries \<open>T{}\<close>, which
  the model takes as the parameter \<open>dflt\<close>.  \<open>max_size\<close> is at most \<open>PTRDIFF_MAX\<close>.\<close>

definition max_size :: nat where
  "max_size = 2 ^ 63 - 1"

definition resize :: "'a \<Rightarrow> 'a list \<Rightarrow> nat \<Rightarrow> error + 'a list" where
  "resize dflt xs n =
     (if max_size < n then Inl length_error
      else Inr (take n xs @ replicate (n - length xs) dflt))"

text \<open>\<open>Tensor::initialize\<close> on the object \<open>this\<close>.  The members are assigned one
  after the other, so the result of a call that throws carries, next to the exception, the
  object as the assignments before the throw leave it (after undefined behaviour that
  object means nothing).\<close>

definition initialize ::
  "'a \<Rightarrow> 'a Tensor \<Rightarrow> int32 list \<Rightarrow> 'a list \<Rightarrow> (error \<times> 'a Tensor) + 'a Tensor" where
  "initialize dflt this input_shape input_elements =
     (let this0 = this\<lparr>shape := input_shape\<rparr> in
      case calculate_total input_shape of
        Inl e \<Rightarrow> Inl (e, this0)
      | Inr tot \<Rightarrow>
          (let n = int_to_size_t tot;
               this1 = this0\<lparr>total_elements := n\<rparr> in
           case calculate_stride input_shape (size_t_to_int n) of
             Inl e \<Rightarrow> Inl (e, this1)
           | Inr st \<Rightarrow>
               (let this2 = this1\<lparr>stride := st\<rparr> in
                if input_elements = [] then
                  (case resize dflt (elements this2) (unat n) of
                     Inl e \<Rightarrow> Inl (e, this2)
                   | Inr els \<Rightarrow> Inr (this2\<lparr>elements := els\<rparr>))
                else if length input_elements \<noteq> unat n then Inl (ShapeMismatch, this2)
                else Inr (this2\<lparr>elements := input_elements\<rparr>))))"

text \<open>The constructor \<open>Tensor(shape, elements)\<close>: \<open>initialize\<close> on a fresh object, whose
  vectors are empty (its \<open>total_elements\<close> is overwritten before it is read).  An
  exception leaves no Tensor.\<close>

definition new_tensor :: "'a \<Rightarrow> int32 list \<Rightarrow> 'a list \<Rightarrow> error + 'a Tensor" where
  "new_tensor dflt input_shape input_elements =
     (case initialize dflt \<lparr>shape = [], stride = [], elements = [], total_elements = 0\<rparr>
             input_shape input_elements of
        Inl (e, this) \<Rightarrow> Inl e
      | Inr this \<Rightarrow> Inr this)"

text \<open>The loop of \<open>Tensor::at\<close> from index \<open>i\<close> on, with the \<open>flat_index\<close> so far.\<close>

function at_loop :: "'a Tensor \<Rightarrow> int32 list \<Rightarrow> nat \<Rightarrow> size_t \<Rightarrow> error + size_t" where
  "at_loop this position i flat_index =
     (if i < length (shape this) then
        (if length position \<le> i then Inl (Undefined OutOfBoundsRead)
         else if sint (shape this ! i) \<le> sint (position ! i) then Inl IndexOutOfRange
         else if length (stride this) \<le> i then Inl (Undefined OutOfBoundsRead)
         else
           (case mul_int (position ! i) (stride this ! i) of
              Inl e \<Rightarrow> Inl e
            | Inr m \<Rightarrow> at_loop this position (Suc i) (flat_index + int_to_size_t m)))
      else Inr flat_index)"
  by pat_completeness auto
termination
  by (relation "measure (\<lambda>(this, position, i, flat_index). length (shape this) - i)") auto

declare at_loop.simps [simp del]

text \<open>The first half of \<open>Tensor::at\<close>: the rank check and the loop, which give the
  flat index.\<close>

definition flat_index_of :: "'a Tensor \<Rightarrow> int32 list \<Rightarrow> error + size_t" where
  "flat_index_of this position =
     (if length position \<noteq> length (shape this) then Inl RankMismatch
      else at_loop this position 0 0)"

text \<open>\<open>elements[flat_index]\<close>.\<close>

definition read_element :: "'a Tensor \<Rightarrow> size_t \<Rightarrow> error + 'a" where
  "read_element this k =
     (if unat k < length (elements this) then Inr (elements this ! unat k)
      else Inl (Undefined OutOfBoundsRead))"

text \<open>\<open>Tensor::at\<close>: the result is the element together with what was written to
  \<open>std::cout\<close> (the elements echoed, their formatting left out).\<close>

definition at :: "'a Tensor \<Rightarrow> int32 list \<Rightarrow> char \<Rightarrow> error + ('a \<times> 'a list)" where
  "at this position print_mode =
     (case flat_index_of this position of
        Inl e \<Rightarrow> Inl e
      | Inr flat_index \<Rightarrow>
          (if print_mode = CHR ''Y'' then
             (case read_element this flat_index of
                Inl e \<Rightarrow> Inl e
              | Inr shown \<Rightarrow>
                  (case read_element this flat_index of
                     Inl e \<Rightarrow> Inl e
                   | Inr x \<Rightarrow> Inr (x, [shown])))
           else
             (case read_element this flat_index of
                Inl e \<Rightarrow> Inl e
              | Inr x \<Rightarrow> Inr (x, []))))"

text \<open>The loop of \<open>element_wise_apply\<close>: \<open>new_elements.push_back(operation(element))\<close>.\<close>

fun apply_loop :: "('a \<Rightarrow> 'a) \<Rightarrow> 'a list \<Rightarrow> 'a list \<Rightarrow> 'a list" where
  "apply_loop operation [] new_elements = new_elements"
| "apply_loop operation (element # rest) new_elements =
     apply_loop operation rest (new_elements @ [operation element])"

definition element_wise_apply ::
  "'a \<Rightarrow> 'a Tensor \<Rightarrow> ('a \<Rightarrow> 'a) \<Rightarrow> error + 'a Tensor" where
  "element_wise_apply dflt this operation =
     new_tensor dflt (shape this) (apply_loop operation (elements this) [])"

section \<open>Notions used to state the properties\<close>

text \<open>A shape as the specification understands it: at least one dimension, every
  dimension size positive.\<close>

definition positive_shape :: "int32 list \<Rightarrow> bool" where
  "positive_shape S = (S \<noteq> [] \<and> list_all (\<lambda>d. 0 < sint d) S)"

text \<open>The mathematical product of the entries of a shape.\<close>

definition shape_product :: "int32 list \<Rightarrow> int" where
  "shape_product S = prod_list (map sint S)"

text \<open>Standard row-major strides: entry \<open>i\<close> is the product of the sizes after \<open>i\<close>.\<close>

fun suffix_products :: "int list \<Rightarrow> int list" where
  "suffix_products [] = []"
| "suffix_products (d # ds) = prod_list ds # suffix_products ds"

text \<open>A valid coordinate: one component per dimension, each in \<open>[0, shape[i])\<close>.\<close>

definition valid_position :: "int32 list \<Rightarrow> int32 list \<Rightarrow> bool" where
  "valid_position S p = list_all2 (\<lambda>c d. 0 \<le> sint c \<and> sint c < sint d) p S"

text \<open>All coordinates of a shape in row-major order: the last dimension varies fastest.\<close>

fun positions :: "int32 list \<Rightarrow> int32 list list" where
  "positions [] = [[]]"
| "positions (d # ds) =
     concat (map (\<lambda>i. map ((#) (word_of_nat i)) (positions ds)) [0 ..< nat (sint d)])"

text \<open>The weighted sum \<open>\<Sum> c[i] * stride[i]\<close> over the integers.\<close>

definition dot :: "int32 list \<Rightarrow> int32 list \<Rightarrow> int" where
  "dot p st = sum_list (map2 (\<lambda>c s. sint c * sint s) p st)"

text \<open>The loop of \<open>Tensor::at\<close> seen on the three remaining lists instead of the index.\<close>

fun at_list :: "int32 list \<Rightarrow> int32 list \<Rightarrow> int32 list \<Rightarrow> size_t \<Rightarrow> error + size_t" where
  "at_list (c # cs) (d # ds) (s # ss) flat =
     (if sint d \<le> sint c then Inl IndexOutOfRange
      else
        (case mul_int c s of
           Inl e \<Rightarrow> Inl e
         | Inr m \<Rightarrow> at_list cs ds ss (flat + int_to_size_t m)))"
| "at_list cs ds ss flat = Inr flat"


text \<open>The example of the specification: shape \<open>[2, 3]\<close> over the buffer
  \<open>[0, 1, 2, 3, 4, 5]\<close>, with the strides \<open>[3, 1]\<close>.\<close>

definition tensor_2x3 :: "int Tensor" where
  "tensor_2x3 =
     \<lparr>shape = [2, 3], stride = [3, 1], elements = [0, 1, 2, 3, 4, 5], total_elements = 6\<rparr>"

section \<open>Machine arithmetic\<close>

lemma sint_int32_range: "INT_MIN \<le> sint (x :: int32) \<and> sint x \<le> INT_MAX"
  using sint_ge [of x] sint_lt [of x] by (simp add: INT_MIN_def INT_MAX_def)

lemma sint_word_of_int32:
  "INT_MIN \<le> k \<Longrightarrow> k \<le> INT_MAX \<Longrightarrow> sint (word_of_int k :: int32) = k"
  by (simp add: signed_of_int signed_take_bit_int_eq_self INT_MIN_def INT_MAX_def)

lemma mul_int_Inr: "mul_int a b = Inr c \<Longrightarrow> sint c = sint a * sint b"
  by (auto simp: mul_int_def sint_word_ariths signed_take_bit_int_eq_self INT_MIN_def INT_MAX_def
      split: if_splits)

lemma mul_int_ok:
  "INT_MIN \<le> sint a * sint b \<Longrightarrow> sint a * sint b \<le> INT_MAX \<Longrightarrow> mul_int a b = Inr (a * b)"
  by (simp add: mul_int_def)

lemma mul_int_Inl: "mul_int a b = Inl e \<Longrightarrow> e = Undefined SignedOverflow"
  by (auto simp: mul_int_def split: if_splits)

lemma div_int_Inl: "div_int a b = Inl e \<Longrightarrow> \<exists>u. e = Undefined u"
  by (auto simp: div_int_def split: if_splits)

lemma div_int_pos:
  assumes "0 \<le> sint a" "0 < sint b"
  shows "\<exists>q. div_int a b = Inr q \<and> sint q = sint a div sint b"
proof -
  have b: "b \<noteq> 0" using assms(2) by auto
  have sd: "sint a sdiv sint b = sint a div sint b"
    using assms by (simp add: signed_divide_int_def sgn_if)
  have "0 \<le> sint a div sint b" using assms by (simp add: pos_imp_zdiv_nonneg_iff)
  moreover have "sint a div sint b \<le> sint a"
    using assms by (metis div_0 int_div_le_self linorder_not_less order_antisym_conv)
  ultimately have "sint (word_of_int (sint a div sint b) :: int32) = sint a div sint b"
    using sint_int32_range [of a] by (intro sint_word_of_int32) (auto simp: INT_MIN_def)
  then show ?thesis using b assms sd by (auto simp: div_int_def INT_MIN_def)
qed

lemma size_t_to_int_inverse: "size_t_to_int (int_to_size_t x) = x"
  unfolding size_t_to_int_def int_to_size_t_def
  by (rule bit_word_eqI) (auto simp: bit_simps)

lemma uint_int_to_size_t: "uint (int_to_size_t x) = sint x mod 2 ^ 64"
  by (simp add: int_to_size_t_def scast_eq uint_word_of_int del: of_int_sint)

lemma unat_int_to_size_t:
  assumes "0 \<le> sint x"
  shows "unat (int_to_size_t x) = nat (sint x)"
proof -
  have "sint x < 2 ^ 64" using sint_int32_range [of x] by (simp add: INT_MAX_def)
  then have "sint x mod 2 ^ 64 = sint x" using assms by (rule_tac mod_pos_pos_trivial)
  then show ?thesis
    using uint_int_to_size_t [of x] by (simp add: unat_eq_nat_uint)
qed

section \<open>The layout calculator\<close>

lemma prod_list_pos:
  "list_all (\<lambda>d. 0 < sint d) ds \<Longrightarrow> 0 < prod_list (map sint (ds :: int32 list))"
  by (induction ds) auto

lemma total_loop_Inr:
  "total_loop t ds = Inr r \<Longrightarrow> sint r = sint t * prod_list (map sint ds)"
proof (induction ds arbitrary: t)
  case Nil
  then show ?case by simp
next
  case (Cons d ds)
  then show ?case
    by (auto split: sum.splits dest!: mul_int_Inr simp: mult.assoc)
qed

lemma total_loop_Inl: "total_loop t ds = Inl e \<Longrightarrow> e = Undefined SignedOverflow"
  by (induction ds arbitrary: t) (auto split: sum.splits dest: mul_int_Inl)

lemma total_loop_ok:
  assumes "0 < sint t" "list_all (\<lambda>d. 0 < sint d) ds"
    and "sint t * prod_list (map sint ds) \<le> INT_MAX"
  shows "\<exists>r. total_loop t ds = Inr r"
  using assms
proof (induction ds arbitrary: t)
  case Nil
  then show ?case by simp
next
  case (Cons d ds)
  have d: "0 < sint d" and ds: "list_all (\<lambda>d. 0 < sint d) ds" using Cons.prems(2) by auto
  have p: "0 < prod_list (map sint ds)" using ds by (rule prod_list_pos)
  have td: "0 < sint t * sint d" using Cons.prems(1) d by simp
  have "sint t * sint d * 1 \<le> sint t * sint d * prod_list (map sint ds)"
    using td p by (intro mult_left_mono) auto
  then have le: "sint t * sint d \<le> INT_MAX" using Cons.prems(3) by (simp add: mult.assoc)
  have "mul_int t d = Inr (t * d)"
    using td le by (intro mul_int_ok) (auto simp: INT_MIN_def)
  moreover have "sint (t * d) = sint t * sint d"
    using calculation by (rule mul_int_Inr)
  moreover have "\<exists>r. total_loop (t * d) ds = Inr r"
    using Cons.IH [of "t * d"] td ds Cons.prems(3) \<open>sint (t * d) = sint t * sint d\<close>
    by (simp add: mult.assoc)
  ultimately show ?case by simp
qed

lemma calculate_total_Inr:
  "calculate_total S = Inr r \<Longrightarrow> S \<noteq> [] \<and> sint r = shape_product S"
  by (cases S) (auto simp: calculate_total_def shape_product_def dest: total_loop_Inr)

lemma calculate_total_ok:
  assumes "positive_shape S" "shape_product S \<le> INT_MAX"
  shows "\<exists>r. calculate_total S = Inr r \<and> sint r = shape_product S"
proof -
  obtain s0 rest where S: "S = s0 # rest"
    using assms(1) by (cases S) (auto simp: positive_shape_def)
  have "\<exists>r. total_loop s0 rest = Inr r"
    using assms by (intro total_loop_ok) (auto simp: S positive_shape_def shape_product_def)
  then show ?thesis using calculate_total_Inr [of S] by (auto simp: S calculate_total_def)
qed

lemma calculate_total_Inl:
  "calculate_total S = Inl e \<Longrightarrow> (S = [] \<and> e = InvalidShape) \<or> (S \<noteq> [] \<and> e = Undefined SignedOverflow)"
  by (cases S) (auto simp: calculate_total_def dest: total_loop_Inl)

lemma stride_loop_length:
  "stride_loop t ds acc = Inr st \<Longrightarrow> length st = length acc + length ds"
  by (induction ds arbitrary: t acc) (auto split: sum.splits)

lemma stride_loop_Inl: "stride_loop t ds acc = Inl e \<Longrightarrow> \<exists>u. e = Undefined u"
  by (induction ds arbitrary: t acc) (auto split: sum.splits dest: div_int_Inl)

lemma stride_loop_zero: "0 \<in> set ds \<Longrightarrow> \<exists>u. stride_loop t ds acc = Inl (Undefined u)"
proof (induction ds arbitrary: t acc)
  case Nil
  then show ?case by simp
next
  case (Cons d ds)
  show ?case
  proof (cases "div_int t d")
    case (Inl e)
    then show ?thesis using div_int_Inl [OF Inl] by auto
  next
    case (Inr q)
    then have "d \<noteq> 0" by (auto simp: div_int_def)
    then have "0 \<in> set ds" using Cons.prems by auto
    then show ?thesis using Cons.IH [of q "acc @ [q]"] Inr by simp
  qed
qed

lemma stride_loop_pos:
  assumes "list_all (\<lambda>d. 0 < sint d) ds" "sint t = prod_list (map sint ds)"
  shows "\<exists>st. stride_loop t ds acc = Inr (acc @ st) \<and> map sint st = suffix_products (map sint ds)"
  using assms
proof (induction ds arbitrary: t acc)
  case Nil
  then show ?case by simp
next
  case (Cons d ds)
  have d: "0 < sint d" and ds: "list_all (\<lambda>d. 0 < sint d) ds" using Cons.prems(1) by auto
  have p: "0 < prod_list (map sint ds)" using ds by (rule prod_list_pos)
  have t: "sint t = sint d * prod_list (map sint ds)" using Cons.prems(2) by simp
  then have "0 \<le> sint t" using d p by simp
  then obtain q where q: "div_int t d = Inr q" "sint q = sint t div sint d"
    using div_int_pos [of t d] d by auto
  have sq: "sint q = prod_list (map sint ds)" using q(2) t d by simp
  obtain st where st: "stride_loop q ds (acc @ [q]) = Inr ((acc @ [q]) @ st)"
    "map sint st = suffix_products (map sint ds)"
    using Cons.IH [OF ds sq, of "acc @ [q]"] by auto
  have "stride_loop t (d # ds) acc = Inr (acc @ (q # st))"
    using q(1) st(1) by simp
  moreover have "map sint (q # st) = suffix_products (map sint (d # ds))"
    using sq st(2) by simp
  ultimately show ?case by blast
qed

lemma calculate_total_zero:
  assumes "calculate_total S = Inr 0" shows "0 \<in> set S"
proof -
  have "shape_product S = 0" using calculate_total_Inr [OF assms] by simp
  then have "0 \<in> set (map sint S)" by (simp add: shape_product_def prod_list_zero_iff)
  then show ?thesis by (auto simp: signed_eq_0_iff)
qed

lemma calculate_stride_Inl:
  "calculate_stride S t = Inl e \<Longrightarrow> (S = [] \<and> e = InvalidShape) \<or> (S \<noteq> [] \<and> (\<exists>u. e = Undefined u))"
  by (auto simp: calculate_stride_def split: if_splits sum.splits
      dest: stride_loop_Inl calculate_total_Inl)

lemma calculate_stride_length:
  "calculate_stride S t = Inr st \<Longrightarrow> length st = length S"
  by (auto simp: calculate_stride_def split: if_splits sum.splits dest: stride_loop_length)

lemma calculate_stride_ok:
  assumes "positive_shape S" "shape_product S \<le> INT_MAX"
  shows "\<exists>st. calculate_stride S 0 = Inr st \<and> map sint st = suffix_products (map sint S)"
proof -
  obtain r where r: "calculate_total S = Inr r" "sint r = shape_product S"
    using calculate_total_ok [OF assms] by auto
  have "\<exists>st. stride_loop r S [] = Inr ([] @ st) \<and> map sint st = suffix_products (map sint S)"
    using assms(1) r(2) by (intro stride_loop_pos) (auto simp: positive_shape_def shape_product_def)
  then show ?thesis using r(1) assms(1) by (auto simp: calculate_stride_def positive_shape_def)
qed

lemma calculate_stride_zero_total:
  "calculate_total S = Inr 0 \<Longrightarrow> \<exists>u. calculate_stride S 0 = Inl (Undefined u)"
  using stride_loop_zero [of S 0 "[]"] calculate_total_zero [of S]
  by (auto simp: calculate_stride_def InvalidShape_def calculate_total_def)

lemma suffix_products_last: "ds \<noteq> [] \<Longrightarrow> last (suffix_products ds) = 1"
proof (induction ds)
  case Nil
  then show ?case by simp
next
  case (Cons d ds)
  then show ?case by (cases ds) auto
qed

lemma suffix_products_sum:
  "sum_list (map2 (\<lambda>d s. (d - 1) * s) ds (suffix_products ds)) = prod_list ds - 1"
  by (induction ds) (auto simp: algebra_simps)

lemma sum_list_map2_nth:
  "length xs = length ys \<Longrightarrow>
     sum_list (map2 f xs ys) = (\<Sum>i<length xs. f (xs ! i) (ys ! i))"
  by (simp add: sum_list_sum_nth atLeast0LessThan)

section \<open>Construction\<close>

lemma initialize_unfold:
  "initialize dflt this S els =
     (case calculate_total S of
        Inl e \<Rightarrow> Inl (e, this\<lparr>shape := S\<rparr>)
      | Inr tot \<Rightarrow>
          (case calculate_stride S tot of
             Inl e \<Rightarrow> Inl (e, this\<lparr>shape := S, total_elements := int_to_size_t tot\<rparr>)
           | Inr st \<Rightarrow>
               if els = [] then
                 (if max_size < unat (int_to_size_t tot)
                  then Inl (length_error, \<lparr>shape = S, stride = st, elements = elements this,
                         total_elements = int_to_size_t tot\<rparr>)
                  else Inr \<lparr>shape = S, stride = st,
                         elements = take (unat (int_to_size_t tot)) (elements this)
                           @ replicate (unat (int_to_size_t tot) - length (elements this)) dflt,
                         total_elements = int_to_size_t tot\<rparr>)
               else if length els \<noteq> unat (int_to_size_t tot)
               then Inl (ShapeMismatch, \<lparr>shape = S, stride = st, elements = elements this,
                         total_elements = int_to_size_t tot\<rparr>)
               else Inr \<lparr>shape = S, stride = st, elements = els,
                         total_elements = int_to_size_t tot\<rparr>))"
  by (simp add: initialize_def Let_def resize_def size_t_to_int_inverse split: sum.splits)

lemma new_tensor_unfold:
  "new_tensor dflt S els =
     (case calculate_total S of
        Inl e \<Rightarrow> Inl e
      | Inr tot \<Rightarrow>
          (case calculate_stride S tot of
             Inl e \<Rightarrow> Inl e
           | Inr st \<Rightarrow>
               if els = [] then
                 (if max_size < unat (int_to_size_t tot) then Inl length_error
                  else Inr \<lparr>shape = S, stride = st,
                         elements = replicate (unat (int_to_size_t tot)) dflt,
                         total_elements = int_to_size_t tot\<rparr>)
               else if length els \<noteq> unat (int_to_size_t tot) then Inl ShapeMismatch
               else Inr \<lparr>shape = S, stride = st, elements = els,
                         total_elements = int_to_size_t tot\<rparr>))"
  by (simp add: new_tensor_def initialize_unfold split: sum.splits)

lemma initialize_Inr:
  assumes "initialize dflt this S els = Inr t"
  shows "\<exists>tot st. calculate_total S = Inr tot \<and> tot \<noteq> 0 \<and> calculate_stride S tot = Inr st
           \<and> shape t = S \<and> stride t = st \<and> total_elements t = int_to_size_t tot
           \<and> length (elements t) = unat (int_to_size_t tot)
           \<and> (els \<noteq> [] \<longrightarrow> elements t = els)
           \<and> (els = [] \<longrightarrow> unat (int_to_size_t tot) \<le> max_size)"
proof -
  obtain tot where tot: "calculate_total S = Inr tot"
    using assms by (auto simp: initialize_unfold split: sum.splits)
  obtain st where st: "calculate_stride S tot = Inr st"
    using assms tot by (auto simp: initialize_unfold split: sum.splits)
  have "tot \<noteq> 0"
  proof
    assume "tot = 0"
    then show False using calculate_stride_zero_total [of S] tot st by auto
  qed
  then show ?thesis
    using assms tot st by (auto simp: initialize_unfold split: if_splits)
qed

lemma new_tensor_initialize:
  "new_tensor dflt S els = Inr t \<Longrightarrow>
     initialize dflt \<lparr>shape = [], stride = [], elements = [], total_elements = 0\<rparr> S els = Inr t"
  by (auto simp: new_tensor_def split: sum.splits)

lemma new_tensor_Inr:
  assumes "new_tensor dflt S els = Inr t"
  shows "\<exists>tot st. calculate_total S = Inr tot \<and> tot \<noteq> 0 \<and> calculate_stride S tot = Inr st
           \<and> shape t = S \<and> stride t = st \<and> total_elements t = int_to_size_t tot
           \<and> length (elements t) = unat (int_to_size_t tot)
           \<and> elements t = (if els = [] then replicate (unat (int_to_size_t tot)) dflt else els)
           \<and> (els = [] \<longrightarrow> unat (int_to_size_t tot) \<le> max_size)"
proof -
  obtain tot st where *: "calculate_total S = Inr tot" "tot \<noteq> 0"
    "calculate_stride S tot = Inr st"
    using initialize_Inr [OF new_tensor_initialize [OF assms]] by blast
  then show ?thesis
    using assms by (auto simp: new_tensor_unfold split: if_splits)
qed

lemma new_tensor_zero_dim:
  assumes "0 \<in> set S"
  shows "\<exists>u. new_tensor dflt S els = Inl (Undefined u)"
proof (cases "calculate_total S")
  case (Inl e)
  then show ?thesis using assms calculate_total_Inl [OF Inl] by (auto simp: new_tensor_unfold)
next
  case (Inr tot)
  have "\<exists>u. calculate_stride S tot = Inl (Undefined u)"
  proof (cases "tot = 0")
    case True
    then show ?thesis using calculate_stride_zero_total [of S] Inr by simp
  next
    case False
    then show ?thesis using stride_loop_zero [OF assms, of tot "[]"] assms
      by (auto simp: calculate_stride_def)
  qed
  then show ?thesis using Inr by (auto simp: new_tensor_unfold)
qed

lemma new_tensor_rebuild:
  assumes "initialize dflt this S els = Inr t" "length els' = length (elements t)"
  shows "new_tensor dflt (shape t) els' = Inr (t\<lparr>elements := els'\<rparr>)"
proof -
  obtain tot st where *: "calculate_total S = Inr tot" "tot \<noteq> 0" "calculate_stride S tot = Inr st"
    "shape t = S" "stride t = st" "total_elements t = int_to_size_t tot"
    "length (elements t) = unat (int_to_size_t tot)"
    using initialize_Inr [OF assms(1)] by blast
  have "int_to_size_t tot \<noteq> 0"
    using *(2) size_t_to_int_inverse [of tot] by (auto simp: size_t_to_int_def)
  then have "unat (int_to_size_t tot) \<noteq> 0" by (simp add: unat_eq_zero)
  then have "els' \<noteq> []" using assms(2) *(7) by auto
  then show ?thesis using * assms(2) by (simp add: new_tensor_unfold)
qed

lemma new_tensor_pos:
  assumes "positive_shape S" "shape_product S \<le> INT_MAX"
  shows "\<exists>tot st. calculate_total S = Inr tot \<and> sint tot = shape_product S
           \<and> calculate_stride S tot = Inr st \<and> map sint st = suffix_products (map sint S)
           \<and> unat (int_to_size_t tot) = nat (shape_product S)
           \<and> new_tensor dflt S els =
               (if els = [] then Inr \<lparr>shape = S, stride = st,
                         elements = replicate (nat (shape_product S)) dflt,
                         total_elements = int_to_size_t tot\<rparr>
                else if length els \<noteq> nat (shape_product S) then Inl ShapeMismatch
                else Inr \<lparr>shape = S, stride = st, elements = els,
                         total_elements = int_to_size_t tot\<rparr>)"
proof -
  obtain tot where tot: "calculate_total S = Inr tot" "sint tot = shape_product S"
    using calculate_total_ok [OF assms] by auto
  obtain st where st: "calculate_stride S 0 = Inr st" "map sint st = suffix_products (map sint S)"
    using calculate_stride_ok [OF assms] by auto
  have st': "calculate_stride S tot = Inr st"
    using st(1) tot(1) by (auto simp: calculate_stride_def)
  have pos: "0 < shape_product S"
    using assms(1) prod_list_pos [of S] by (simp add: positive_shape_def shape_product_def)
  have n: "unat (int_to_size_t tot) = nat (shape_product S)"
    using unat_int_to_size_t [of tot] tot(2) pos by simp
  have "nat (shape_product S) \<le> max_size"
    using assms(2) by (simp add: INT_MAX_def max_size_def)
  then show ?thesis using tot st' st(2) n by (simp add: new_tensor_unfold)
qed

lemma apply_loop_map: "apply_loop f xs acc = acc @ map f xs"
  by (induction xs arbitrary: acc) auto


section \<open>Row-major indexing\<close>

lemma at_loop_at_list:
  assumes "length p = length (shape t)" "length (stride t) = length (shape t)"
    and "i \<le> length (shape t)"
  shows "at_loop t p i flat = at_list (drop i p) (drop i (shape t)) (drop i (stride t)) flat"
  using assms(3)
proof (induction "length (shape t) - i" arbitrary: i flat)
  case 0
  then have "i = length (shape t)" by simp
  then show ?case using assms(1,2) by (simp add: at_loop.simps)
next
  case (Suc n)
  then have i: "i < length (shape t)" by simp
  have d: "drop i p = p ! i # drop (Suc i) p"
    "drop i (shape t) = shape t ! i # drop (Suc i) (shape t)"
    "drop i (stride t) = stride t ! i # drop (Suc i) (stride t)"
    using i assms(1,2) by (simp_all add: Cons_nth_drop_Suc)
  have IH: "at_loop t p (Suc i) f = 
      at_list (drop (Suc i) p) (drop (Suc i) (shape t)) (drop (Suc i) (stride t)) f" for f
    using Suc.hyps(1) [of "Suc i" f] Suc.hyps(2) i by simp
  show ?case
    using i assms(1,2) by (subst at_loop.simps) (simp add: d IH split: sum.splits)
qed

lemma dot_Cons: "dot (c # cs) (s # ss) = sint c * sint s + dot cs ss"
  by (simp add: dot_def)

lemma dot_Nil: "dot [] ss = 0"
  by (simp add: dot_def)

lemma suffix_products_Cons_eq:
  "map sint ss = suffix_products (map sint (d # ds)) \<Longrightarrow>
     \<exists>s ss'. ss = s # ss' \<and> sint s = prod_list (map sint ds)
        \<and> map sint ss' = suffix_products (map sint ds)"
  by (cases ss) auto

lemma at_list_valid:
  assumes "list_all2 (\<lambda>c d. 0 \<le> sint c \<and> sint c < sint d) p ds"
    and "map sint ss = suffix_products (map sint ds)"
    and "prod_list (map sint ds) \<le> INT_MAX"
  shows "at_list p ds ss flat = Inr (flat + word_of_int (dot p ss))
           \<and> 0 \<le> dot p ss \<and> dot p ss < prod_list (map sint ds)"
  using assms
proof (induction p ds arbitrary: ss flat rule: list_all2_induct)
  case Nil
  then show ?case by (simp add: dot_Nil)
next
  case (Cons c cs d ds)
  obtain s ss' where ss: "ss = s # ss'" "sint s = prod_list (map sint ds)"
    "map sint ss' = suffix_products (map sint ds)"
    using suffix_products_Cons_eq [OF Cons.prems(1)] by blast
  define P where "P = prod_list (map sint ds)"
  have c: "0 \<le> sint c" "sint c < sint d" using Cons.hyps(1) by auto
  have dP: "sint d * P \<le> INT_MAX" using Cons.prems(2) by (simp add: P_def)
  have Ppos: "0 < P"
  proof -
    have "list_all (\<lambda>d. 0 < sint d) ds"
      using Cons.hyps(2) by (induction rule: list_all2_induct) auto
    then show ?thesis unfolding P_def by (rule prod_list_pos)
  qed
  have cP: "sint c * P + P \<le> sint d * P"
  proof -
    have "(sint c + 1) * P \<le> sint d * P" using c(2) Ppos by (intro mult_right_mono) auto
    then show ?thesis by (simp add: algebra_simps)
  qed
  have cP0: "0 \<le> sint c * P" using c(1) Ppos by simp
  have P_le: "P \<le> INT_MAX" using cP dP cP0 by linarith
  have "mul_int c s = Inr (c * s)"
    using cP cP0 dP Ppos by (intro mul_int_ok) (auto simp: ss(2) P_def [symmetric] INT_MIN_def)
  moreover have m: "sint (c * s) = sint c * P"
    using mul_int_Inr [OF calculation] by (simp add: ss(2) P_def)
  moreover have "int_to_size_t (c * s) = word_of_int (sint c * P)"
    using m by (simp add: int_to_size_t_def scast_eq del: of_int_sint)
  moreover note IH = Cons.IH [OF ss(3), of "flat + word_of_int (sint c * P)"]
  ultimately show ?case
    using c cP cP0 P_le by (simp add: ss dot_Cons P_def [symmetric] add.assoc)
qed

lemma sint_word_of_nat32: "int i \<le> INT_MAX \<Longrightarrow> sint (word_of_nat i :: int32) = int i"
  using sint_word_of_int32 [of "int i"] by (simp add: INT_MIN_def)

lemma dot_inj:
  assumes "list_all2 (\<lambda>c d. 0 \<le> sint c \<and> sint c < sint d) p (ds :: int32 list)"
    and "list_all2 (\<lambda>c d. 0 \<le> sint c \<and> sint c < sint d) q ds"
    and "map sint ss = suffix_products (map sint ds)"
    and "prod_list (map sint ds) \<le> INT_MAX"
    and "dot p ss = dot q ss"
  shows "p = q"
  using assms
proof (induction p ds arbitrary: q ss rule: list_all2_induct)
  case Nil
  then show ?case by simp
next
  case (Cons c cs d ds)
  obtain c' cs' where q: "q = c' # cs'" "0 \<le> sint c'" "sint c' < sint d"
    "list_all2 (\<lambda>c d. 0 \<le> sint c \<and> sint c < sint d) cs' ds"
    using Cons.prems(1) by (auto simp: list_all2_Cons2)
  obtain s ss' where ss: "ss = s # ss'" "sint s = prod_list (map sint ds)"
    "map sint ss' = suffix_products (map sint ds)"
    using suffix_products_Cons_eq [OF Cons.prems(2)] by blast
  define P where "P = prod_list (map sint ds)"
  have Ppos: "0 < P"
  proof -
    have "list_all (\<lambda>d. 0 < sint d) ds"
      using Cons.hyps(2) by (induction rule: list_all2_induct) auto
    then show ?thesis unfolding P_def by (rule prod_list_pos)
  qed
  have d1: "1 \<le> sint d" using Cons.hyps(1) by simp
  have "1 * P \<le> sint d * P" using d1 Ppos by (intro mult_right_mono) auto
  then have P_le: "P \<le> INT_MAX" using Cons.prems(3) by (simp add: P_def)
  have P_le': "prod_list (map sint ds) \<le> INT_MAX" using P_le by (simp add: P_def)
  have r: "0 \<le> dot cs ss'" "dot cs ss' < P"
    using at_list_valid [OF Cons.hyps(2) ss(3) P_le'] by (simp_all add: P_def)
  have r': "0 \<le> dot cs' ss'" "dot cs' ss' < P"
    using at_list_valid [OF q(4) ss(3) P_le'] by (simp_all add: P_def)
  have eq: "sint c * P + dot cs ss' = sint c' * P + dot cs' ss'"
    using Cons.prems(4) by (simp add: q ss dot_Cons P_def)
  have "(sint c * P + dot cs ss') div P = sint c"
    using r Ppos by (simp add: div_pos_pos_trivial)
  moreover have "(sint c' * P + dot cs' ss') div P = sint c'"
    using r' Ppos by (simp add: div_pos_pos_trivial)
  ultimately have cc: "sint c = sint c'" using eq by simp
  then have "c = c'" by (rule signed_word_eqI)
  moreover have "dot cs ss' = dot cs' ss'" using eq cc by simp
  then have "cs = cs'" using Cons.IH [OF q(4) ss(3) P_le'] by simp
  ultimately show ?case by (simp add: q)
qed

lemma concat_blocks:
  "concat (map (\<lambda>i. map (\<lambda>k. f (i * m + k)) [0..<m]) [0..<D]) = map f [0..<D * m]"
proof (induction D)
  case 0
  then show ?case by simp
next
  case (Suc D)
  have "map (\<lambda>k. f (D * m + k)) [0..<m] = map f (map (\<lambda>k. k + D * m) [0..<m])"
    by (simp add: add.commute)
  also have "\<dots> = map f [D * m..<D * m + m]"
    by (simp only: map_add_upt add.commute)
  finally have blk: "map (\<lambda>k. f (D * m + k)) [0..<m] = map f [D * m..<D * m + m]" .
  have "[0..<Suc D * m] = [0..<D * m] @ [D * m..<D * m + m]"
    using upt_add_eq_append [of 0 "D * m" m] by (simp add: add.commute)
  then show ?case using Suc.IH blk by simp
qed

lemma positions_valid:
  "p \<in> set (positions ds) \<Longrightarrow> list_all2 (\<lambda>c d. 0 \<le> sint c \<and> sint c < sint d) p ds"
proof (induction ds arbitrary: p)
  case Nil
  then show ?case by simp
next
  case (Cons d ds)
  then obtain i p' where ip: "i < nat (sint d)" "p' \<in> set (positions ds)" "p = word_of_nat i # p'"
    by auto
  have "int i < sint d" using ip(1) by simp
  then have "int i \<le> INT_MAX" using sint_int32_range [of d] by simp
  then have "sint (word_of_nat i :: int32) = int i" by (rule sint_word_of_nat32)
  then show ?case using ip Cons.IH [of p'] \<open>int i < sint d\<close> by simp
qed

lemma valid_positions:
  "list_all2 (\<lambda>c d. 0 \<le> sint c \<and> sint c < sint d) p ds \<Longrightarrow> p \<in> set (positions ds)"
proof (induction p ds rule: list_all2_induct)
  case Nil
  then show ?case by simp
next
  case (Cons c cs d ds)
  have "nat (sint c) < nat (sint d)" using Cons.hyps(1) by simp
  moreover have "c = word_of_nat (nat (sint c))" using Cons.hyps(1) by simp
  ultimately show ?case using Cons.IH by force
qed

lemma positions_dot:
  assumes "list_all (\<lambda>d. 0 < sint d) ds"
    and "map sint ss = suffix_products (map sint ds)"
    and "prod_list (map sint ds) \<le> INT_MAX"
  shows "map (\<lambda>p. nat (dot p ss)) (positions ds) = [0..<nat (prod_list (map sint ds))]"
  using assms
proof (induction ds arbitrary: ss)
  case Nil
  then show ?case by (simp add: dot_Nil)
next
  case (Cons d ds)
  obtain s ss' where ss: "ss = s # ss'" "sint s = prod_list (map sint ds)"
    "map sint ss' = suffix_products (map sint ds)"
    using suffix_products_Cons_eq [OF Cons.prems(2)] by blast
  define P where "P = prod_list (map sint ds)"
  define m where "m = nat P"
  define D where "D = nat (sint d)"
  have d: "0 < sint d" and ds: "list_all (\<lambda>d. 0 < sint d) ds" using Cons.prems(1) by auto
  have Ppos: "0 < P" using ds unfolding P_def by (rule prod_list_pos)
  have "1 * P \<le> sint d * P" using d Ppos by (intro mult_right_mono) auto
  then have P_le: "prod_list (map sint ds) \<le> INT_MAX" using Cons.prems(3) by (simp add: P_def)
  have IH: "map (\<lambda>p. nat (dot p ss')) (positions ds) = [0..<m]"
    using Cons.IH [OF ds ss(3) P_le] by (simp add: m_def P_def)
  have inner: "map (\<lambda>p. nat (dot p ss)) (map ((#) (word_of_nat i)) (positions ds))
                 = map (\<lambda>k. i * m + k) [0..<m]" if "i < D" for i
  proof -
    have "int i < sint d" using that by (simp add: D_def)
    then have "int i \<le> INT_MAX" using sint_int32_range [of d] by simp
    then have si: "sint (word_of_nat i :: int32) = int i" by (rule sint_word_of_nat32)
    have "nat (dot (word_of_nat i # p) ss) = i * m + nat (dot p ss')"
      if "p \<in> set (positions ds)" for p
    proof -
      have "0 \<le> dot p ss'"
        using at_list_valid [OF positions_valid [OF that] ss(3) P_le] by simp
      then show ?thesis
        using Ppos by (simp add: ss dot_Cons si P_def [symmetric] m_def nat_add_distrib nat_mult_distrib)
    qed
    then have "map (\<lambda>p. nat (dot p ss)) (map ((#) (word_of_nat i)) (positions ds))
                 = map (\<lambda>p. i * m + nat (dot p ss')) (positions ds)"
      by (simp add: comp_def)
    also have "\<dots> = map (\<lambda>k. i * m + k) (map (\<lambda>p. nat (dot p ss')) (positions ds))"
      by (simp add: comp_def)
    finally show ?thesis by (simp add: IH)
  qed
  have "map (\<lambda>p. nat (dot p ss)) (positions (d # ds))
          = concat (map (\<lambda>i. map (\<lambda>p. nat (dot p ss)) (map ((#) (word_of_nat i)) (positions ds))) [0..<D])"
    by (simp add: map_concat comp_def D_def)
  also have "\<dots> = concat (map (\<lambda>i. map (\<lambda>k. i * m + k) [0..<m]) [0..<D])"
    using inner by (intro arg_cong [where f = concat] map_cong) auto
  also have "\<dots> = map (\<lambda>k. k) [0..<D * m]"
    by (rule concat_blocks)
  also have "D * m = nat (prod_list (map sint (d # ds)))"
    using d Ppos by (simp add: D_def m_def P_def nat_mult_distrib)
  finally show ?case by simp
qed

lemma flat_index_of_valid:
  assumes "new_tensor dflt S els = Inr t" "positive_shape S" "valid_position S c"
  shows "flat_index_of t c = Inr (word_of_int (dot c (stride t)))
           \<and> 0 \<le> dot c (stride t) \<and> dot c (stride t) < shape_product S
           \<and> unat (word_of_int (dot c (stride t)) :: size_t) = nat (dot c (stride t))"
proof -
  obtain tot st where *: "calculate_total S = Inr tot" "calculate_stride S tot = Inr st"
    "shape t = S" "stride t = st"
    using new_tensor_Inr [OF assms(1)] by blast
  have prod: "sint tot = shape_product S" using calculate_total_Inr [OF *(1)] by simp
  then have le: "shape_product S \<le> INT_MAX" using sint_int32_range [of tot] by simp
  have "calculate_stride S 0 = Inr st"
    using *(1,2) by (cases "tot = 0") (auto simp: calculate_stride_def split: if_splits)
  then have st: "map sint st = suffix_products (map sint S)"
    using calculate_stride_ok [OF assms(2) le] by auto
  have len: "length st = length S" using *(2) by (rule calculate_stride_length)
  have v: "list_all2 (\<lambda>c d. 0 \<le> sint c \<and> sint c < sint d) c S"
    using assms(3) by (simp add: valid_position_def)
  then have lc: "length c = length S" by (rule list_all2_lengthD)
  have al: "at_list c S st 0 = Inr (0 + word_of_int (dot c st))
           \<and> 0 \<le> dot c st \<and> dot c st < prod_list (map sint S)"
    using le by (intro at_list_valid [OF v st]) (simp add: shape_product_def)
  have "flat_index_of t c = at_list c S st 0"
    using at_loop_at_list [of c t 0 0] lc len * by (simp add: flat_index_of_def)
  moreover have "unat (word_of_int (dot c st) :: size_t) = nat (dot c st)"
  proof -
    have "dot c st < 2 ^ 64" using al le by (simp add: shape_product_def INT_MAX_def)
    then have "dot c st mod 2 ^ 64 = dot c st" using al by (intro mod_pos_pos_trivial) auto
    then show ?thesis by (simp add: unat_eq_nat_uint uint_word_of_int)
  qed
  ultimately show ?thesis using al * by (simp add: shape_product_def)
qed

lemma at_valid:
  assumes "new_tensor dflt S els = Inr t" "positive_shape S" "valid_position S c"
  shows "at t c CHR ''N'' = Inr (elements t ! nat (dot c (stride t)), [])"
proof -
  note f = flat_index_of_valid [OF assms]
  obtain tot where *: "calculate_total S = Inr tot"
    "length (elements t) = unat (int_to_size_t tot)"
    using new_tensor_Inr [OF assms(1)] by blast
  have prod: "sint tot = shape_product S" using calculate_total_Inr [OF *(1)] by simp
  have pos: "0 < shape_product S"
    using assms(2) prod_list_pos [of S] by (simp add: positive_shape_def shape_product_def)
  have "length (elements t) = nat (shape_product S)"
    using *(2) unat_int_to_size_t [of tot] prod pos by simp
  then have "nat (dot c (stride t)) < length (elements t)" using f by simp
  then show ?thesis using f by (simp add: at_def read_element_def)
qed

lemma new_tensor_2x3: "new_tensor 0 [2, 3] [0, 1, 2, 3, 4, 5] = Inr tensor_2x3"
  by (simp add: tensor_2x3_def new_tensor_unfold calculate_total_def calculate_stride_def
      mul_int_def div_int_def INT_MIN_def INT_MAX_def int_to_size_t_def)

lemma positions_2x3:
  "positions [2, 3] = [[0, 0], [0, 1], [0, 2], [1, 0], [1, 1], [1, 2]]"
  by (simp add: upt_rec numeral_eq_Suc)

section \<open>Properties of the layout calculator\<close>

text \<open>
  C3, as amended.  For a non-empty shape of positive sizes, \<open>calculate_total\<close> returns
  the mathematical product of the entries exactly when that product is at most
  \<open>INT_MAX = 2^31 - 1\<close>.
\<close>

theorem calculate_total_is_product:
  assumes "positive_shape S"
  shows "(\<exists>tot. calculate_total S = Inr tot \<and> sint tot = shape_product S)
           \<longleftrightarrow> shape_product S \<le> INT_MAX"
proof
  assume "\<exists>tot. calculate_total S = Inr tot \<and> sint tot = shape_product S"
  then show "shape_product S \<le> INT_MAX" using sint_int32_range by metis
next
  assume "shape_product S \<le> INT_MAX"
  then show "\<exists>tot. calculate_total S = Inr tot \<and> sint tot = shape_product S"
    using assms by (rule calculate_total_ok [rotated])
qed

text \<open>At the shape \<open>[2, 3, 4]\<close> the total is 24.\<close>

theorem calculate_total_is_product_witness:
  "positive_shape [2, 3, 4] \<and> shape_product [2, 3, 4] \<le> INT_MAX
     \<and> (\<exists>tot. calculate_total [2, 3, 4] = Inr tot \<and> sint tot = 24)"
  using calculate_total_is_product [of "[2, 3, 4]"]
  by (simp add: positive_shape_def shape_product_def INT_MAX_def)

text \<open>
  C3 as stated, for every non-empty shape of positive sizes, fails at \<open>[65536, 65536]\<close>:
  the product is \<open>2^32\<close>, and \<open>total *= shape[1]\<close> overflows \<open>int\<close>, so no total is
  returned.
\<close>

theorem calculate_total_overflow_counterexample:
  "positive_shape [65536, 65536] \<and> shape_product [65536, 65536] = 4294967296
     \<and> calculate_total [65536, 65536] = Inl (Undefined SignedOverflow)"
  by (simp add: positive_shape_def shape_product_def calculate_total_def mul_int_def
      INT_MIN_def INT_MAX_def)

text \<open>
  C2, as amended.  For a non-empty shape \<open>S\<close> of positive sizes whose product is at most
  \<open>INT_MAX\<close>, \<open>calculate_stride\<close> returns one stride per dimension, the last stride is 1,
  \<open>\<Sum> (S[i] - 1) * stride[i]\<close> is \<open>calculate_total(S) - 1\<close>, and the strides are the
  standard row-major ones: entry \<open>i\<close> is the product of the sizes after \<open>i\<close>.
\<close>

theorem calculate_stride_row_major:
  assumes "positive_shape S" "shape_product S \<le> INT_MAX"
  shows "\<exists>st tot. calculate_stride S 0 = Inr st \<and> calculate_total S = Inr tot
           \<and> length st = length S \<and> last st = 1
           \<and> (\<Sum>i<length S. (sint (S ! i) - 1) * sint (st ! i)) = sint tot - 1
           \<and> map sint st = suffix_products (map sint S)"
proof -
  obtain tot where tot: "calculate_total S = Inr tot" "sint tot = shape_product S"
    using calculate_total_ok [OF assms] by auto
  obtain st where st: "calculate_stride S 0 = Inr st" "map sint st = suffix_products (map sint S)"
    using calculate_stride_ok [OF assms] by auto
  have len: "length st = length S" using st(1) by (rule calculate_stride_length)
  have ne: "S \<noteq> []" "st \<noteq> []" using assms(1) len by (auto simp: positive_shape_def)
  have "sint (last st) = last (map sint st)" using ne(2) by (simp add: last_map)
  also have "\<dots> = 1" using ne(1) by (simp add: st(2) suffix_products_last)
  finally have "sint (last st) = sint (1 :: int32)" by simp
  then have last: "last st = 1" by (rule signed_word_eqI)
  have "(\<Sum>i<length S. (sint (S ! i) - 1) * sint (st ! i))
          = (\<Sum>i<length (map sint S). (map sint S ! i - 1) * (map sint st ! i))"
    using len by simp
  also have "\<dots> = sum_list (map2 (\<lambda>d s. (d - 1) * s) (map sint S) (map sint st))"
    using len by (subst sum_list_map2_nth) auto
  also have "\<dots> = sint tot - 1"
    by (simp add: st(2) suffix_products_sum tot(2) shape_product_def)
  finally show ?thesis using tot(1) st len last by blast
qed

text \<open>At the shape \<open>[2, 2, 2]\<close>, whose strides are \<open>[4, 2, 1]\<close>.\<close>

theorem calculate_stride_row_major_witness:
  "positive_shape [2, 2, 2] \<and> shape_product [2, 2, 2] \<le> INT_MAX
     \<and> (\<exists>st tot. calculate_stride [2, 2, 2] 0 = Inr st \<and> calculate_total [2, 2, 2] = Inr tot
           \<and> length st = length [2, 2, 2 :: int32] \<and> last st = 1
           \<and> (\<Sum>i<length [2, 2, 2 :: int32]. (sint ([2, 2, 2 :: int32] ! i) - 1) * sint (st ! i))
               = sint tot - 1
           \<and> map sint st = suffix_products (map sint [2, 2, 2 :: int32]))"
proof -
  have h1: "positive_shape [2, 2, 2]" by (simp add: positive_shape_def)
  have h2: "shape_product [2, 2, 2] \<le> INT_MAX" by (simp add: shape_product_def INT_MAX_def)
  show ?thesis
    by (rule conjI [OF h1 conjI [OF h2 calculate_stride_row_major [OF h1 h2]]])
qed

text \<open>
  C2 as stated, for every non-empty shape of positive sizes, fails at \<open>[65536, 65536]\<close>:
  the recomputation of the total overflows \<open>int\<close> and no stride table is returned.
\<close>

theorem calculate_stride_overflow_counterexample:
  "positive_shape [65536, 65536]
     \<and> calculate_stride [65536, 65536] 0 = Inl (Undefined SignedOverflow)"
  by (simp add: positive_shape_def calculate_stride_def calculate_total_def mul_int_def
      INT_MIN_def INT_MAX_def)

text \<open>
  C9.  Passing the total that \<open>calculate_total\<close> returns for the shape gives the same
  result of \<open>calculate_stride\<close> as omitting it (the default argument 0), which recomputes
  it.
\<close>

theorem precomputed_total_equivalent:
  "calculate_total S = Inr tot \<Longrightarrow> calculate_stride S tot = calculate_stride S 0"
  by (auto simp: calculate_stride_def)

text \<open>At the shape \<open>[2, 3]\<close> both calls return the strides \<open>[3, 1]\<close>.\<close>

theorem precomputed_total_equivalent_witness:
  "calculate_total [2, 3] = Inr 6 \<and> calculate_stride [2, 3] 6 = calculate_stride [2, 3] 0
     \<and> calculate_stride [2, 3] 0 = Inr [3, 1]"
proof -
  have h: "calculate_total [2, 3] = Inr 6"
    by (simp add: calculate_total_def mul_int_def INT_MIN_def INT_MAX_def)
  have "calculate_stride [2, 3] 0 = Inr [3, 1]"
    by (simp add: calculate_stride_def calculate_total_def mul_int_def div_int_def
        INT_MIN_def INT_MAX_def)
  then show ?thesis using h precomputed_total_equivalent [OF h] by simp
qed

section \<open>Properties of construction\<close>

text \<open>
  C6, as amended.  Construction from the empty shape fails with \<open>InvalidShape\<close>.  For a
  non-empty shape of positive sizes whose product is at most \<open>INT_MAX\<close>: construction
  fails with \<open>ShapeMismatch\<close> when a non-empty buffer's length differs from the product,
  and with the buffer omitted or empty it succeeds with product-many entries of the
  default value, \<open>total_elements\<close> being the product.
\<close>

theorem construction_outcomes:
  assumes "positive_shape S" "shape_product S \<le> INT_MAX"
  shows "new_tensor dflt [] els = Inl InvalidShape
     \<and> (els \<noteq> [] \<and> int (length els) \<noteq> shape_product S
          \<longrightarrow> new_tensor dflt S els = Inl ShapeMismatch)
     \<and> (\<exists>t. new_tensor dflt S [] = Inr t \<and> shape t = S
            \<and> elements t = replicate (nat (shape_product S)) dflt
            \<and> uint (total_elements t) = shape_product S)"
proof -
  have pos: "0 < shape_product S"
    using assms(1) prod_list_pos [of S] by (simp add: positive_shape_def shape_product_def)
  have 1: "new_tensor dflt [] els = Inl InvalidShape"
    by (simp add: new_tensor_unfold calculate_total_def)
  have 2: "new_tensor dflt S els = Inl ShapeMismatch"
    if "els \<noteq> []" "int (length els) \<noteq> shape_product S"
  proof -
    have "length els \<noteq> nat (shape_product S)" using that(2) pos by auto
    then show ?thesis using new_tensor_pos [OF assms, of dflt els] that(1) by auto
  qed
  have 3: "\<exists>t. new_tensor dflt S [] = Inr t \<and> shape t = S
            \<and> elements t = replicate (nat (shape_product S)) dflt
            \<and> uint (total_elements t) = shape_product S"
  proof -
    obtain tot st where *: "unat (int_to_size_t tot) = nat (shape_product S)"
      "new_tensor dflt S [] = Inr \<lparr>shape = S, stride = st,
          elements = replicate (nat (shape_product S)) dflt,
          total_elements = int_to_size_t tot\<rparr>"
      using new_tensor_pos [OF assms, of dflt "[]"] by auto
    have "uint (int_to_size_t tot) = shape_product S"
      using *(1) pos uint_nat [of "int_to_size_t tot"] by simp
    then show ?thesis using *(2) by simp
  qed
  show ?thesis using 1 2 3 by blast
qed

text \<open>At the shape \<open>[2, 3]\<close>: a 5-element buffer is a \<open>ShapeMismatch\<close>, and no buffer
  gives six default entries.\<close>

theorem construction_outcomes_witness:
  "positive_shape [2, 3] \<and> shape_product [2, 3] \<le> INT_MAX
     \<and> new_tensor (0::int) [] [1, 2, 3, 4, 5] = Inl InvalidShape
     \<and> new_tensor (0::int) [2, 3] [1, 2, 3, 4, 5] = Inl ShapeMismatch
     \<and> (\<exists>t. new_tensor (0::int) [2, 3] [] = Inr t \<and> shape t = [2, 3]
            \<and> elements t = [0, 0, 0, 0, 0, 0] \<and> uint (total_elements t) = 6)"
proof -
  have h1: "positive_shape [2, 3]" by (simp add: positive_shape_def)
  have h2: "shape_product [2, 3] \<le> INT_MAX" by (simp add: shape_product_def INT_MAX_def)
  have p: "shape_product [2, 3] = 6" by (simp add: shape_product_def)
  have r: "replicate 6 (0::int) = [0, 0, 0, 0, 0, 0]" by (simp add: numeral_eq_Suc)
  show ?thesis
    using h1 h2 construction_outcomes [OF h1 h2, of "0::int" "[1, 2, 3, 4, 5]"]
    by (simp add: p r)
qed

text \<open>
  C6 as stated, for every shape, fails at the positive shape \<open>[65536, 65537]\<close> with a
  buffer of 65536 elements: the length differs from the product \<open>2^32 + 65536\<close>, but the
  product overflows \<open>int\<close> in \<open>calculate_total\<close> before the buffer is looked at, and the
  outcome is not \<open>ShapeMismatch\<close>.
\<close>

theorem construction_overflow_counterexample:
  "positive_shape [65536, 65537]
     \<and> replicate 65536 (0::int) \<noteq> []
     \<and> shape_product [65536, 65537] = 4295032832
     \<and> length (replicate 65536 (0::int)) = 65536
     \<and> new_tensor 0 [65536, 65537] (replicate 65536 (0::int)) = Inl (Undefined SignedOverflow)"
  by (simp add: positive_shape_def shape_product_def new_tensor_unfold calculate_total_def
      mul_int_def INT_MIN_def INT_MAX_def)

text \<open>
  C4, as amended.  Construction fails with \<open>InvalidShape\<close> exactly when the shape is
  empty: the dimension sizes are not validated, so a shape with a non-positive size is
  never rejected with \<open>InvalidShape\<close>.
\<close>

theorem shape_validation:
  "new_tensor dflt S els = Inl InvalidShape \<longleftrightarrow> S = []"
proof
  assume a: "new_tensor dflt S els = Inl InvalidShape"
  show "S = []"
  proof (rule ccontr)
    assume "S \<noteq> []"
    then show False
      using a by (auto simp: new_tensor_unfold InvalidShape_def ShapeMismatch_def
          split: sum.splits if_splits dest!: calculate_total_Inl calculate_stride_Inl)
  qed
next
  assume "S = []"
  then show "new_tensor dflt S els = Inl InvalidShape"
    by (simp add: new_tensor_unfold calculate_total_def)
qed

text \<open>At the empty shape, and at the shape \<open>[2, 0]\<close>, where the stride loop divides by
  zero.\<close>

theorem shape_validation_witness:
  "new_tensor (0::int) [] [] = Inl InvalidShape
     \<and> new_tensor (0::int) [2, 0] [] = Inl (Undefined DivisionByZero)
     \<and> new_tensor (0::int) [2, 0] [] \<noteq> Inl InvalidShape"
proof -
  have "new_tensor (0::int) [2, 0] [] = Inl (Undefined DivisionByZero)"
    by (simp add: new_tensor_unfold calculate_total_def calculate_stride_def mul_int_def
        div_int_def INT_MIN_def INT_MAX_def)
  then show ?thesis
    using shape_validation [of "0::int" "[]" "[]"] shape_validation [of "0::int" "[2, 0]" "[]"]
    by simp
qed

text \<open>
  C4 as stated fails at the shape \<open>[-2, -3]\<close> with six elements: no size is positive,
  and the construction succeeds, with the strides \<open>[-3, 1]\<close>.
\<close>

theorem negative_shape_counterexample:
  "new_tensor (0::int) [- 2, - 3] [0, 1, 2, 3, 4, 5] =
     Inr \<lparr>shape = [- 2, - 3], stride = [- 3, 1], elements = [0, 1, 2, 3, 4, 5],
          total_elements = 6\<rparr>"
  by (simp add: new_tensor_unfold calculate_total_def calculate_stride_def mul_int_def
      div_int_def INT_MIN_def INT_MAX_def int_to_size_t_def)




section \<open>Properties of element access\<close>

text \<open>
  C1.  Let a Tensor be constructed from a non-empty shape of positive sizes and an
  explicit buffer.  Then reading all coordinates in row-major order with \<open>at\<close> gives back
  the buffer; the enumeration consists of exactly the valid coordinates; for every valid
  coordinate the flat index is \<open>\<Sum> c[i] * stride[i]\<close> and lies below \<open>total_elements\<close>;
  and distinct valid coordinates have distinct flat indices.
\<close>

theorem row_major_round_trip:
  assumes "new_tensor dflt S els = Inr t" "positive_shape S" "els \<noteq> []"
  shows "map (\<lambda>p. at t p CHR ''N'') (positions S) = map (\<lambda>x. Inr (x, [])) els
     \<and> set (positions S) = {p. valid_position S p}
     \<and> (\<forall>c. valid_position S c \<longrightarrow>
           (\<exists>k. flat_index_of t c = Inr k \<and> unat k < unat (total_elements t)
              \<and> uint k = dot c (stride t)))
     \<and> (\<forall>c c'. valid_position S c \<and> valid_position S c' \<and> c \<noteq> c' \<longrightarrow>
           flat_index_of t c \<noteq> flat_index_of t c')"
proof -
  obtain tot st where *: "calculate_total S = Inr tot" "calculate_stride S tot = Inr st"
    "shape t = S" "stride t = st" "total_elements t = int_to_size_t tot"
    "length (elements t) = unat (int_to_size_t tot)"
    "elements t = (if els = [] then replicate (unat (int_to_size_t tot)) dflt else els)"
    using new_tensor_Inr [OF assms(1)] by blast
  have els: "elements t = els" using *(7) assms(3) by simp
  have prod: "sint tot = shape_product S" using calculate_total_Inr [OF *(1)] by simp
  then have le: "shape_product S \<le> INT_MAX" using sint_int32_range [of tot] by simp
  have pos: "0 < shape_product S"
    using assms(2) prod_list_pos [of S] by (simp add: positive_shape_def shape_product_def)
  have n: "unat (total_elements t) = nat (shape_product S)"
    using *(5) unat_int_to_size_t [of tot] prod pos by simp
  have len: "length els = nat (shape_product S)" using *(5,6) els n by simp
  have "calculate_stride S 0 = Inr st"
    using *(1,2) by (cases "tot = 0") (auto simp: calculate_stride_def split: if_splits)
  then have st: "map sint st = suffix_products (map sint S)"
    using calculate_stride_ok [OF assms(2) le] by auto
  have all: "list_all (\<lambda>d. 0 < sint d) S" using assms(2) by (simp add: positive_shape_def)
  have le': "prod_list (map sint S) \<le> INT_MAX" using le by (simp add: shape_product_def)
  have enum: "map (\<lambda>p. nat (dot p st)) (positions S) = [0..<length els]"
    using positions_dot [OF all st le'] len by (simp add: shape_product_def)
  have valid: "valid_position S p" if "p \<in> set (positions S)" for p
    using positions_valid [OF that] by (simp add: valid_position_def)
  have "map (\<lambda>p. at t p CHR ''N'') (positions S)
          = map (\<lambda>p. Inr (els ! nat (dot p st), [])) (positions S)"
    using at_valid [OF assms(1,2) valid] by (intro map_cong) (auto simp: els *(4))
  also have "\<dots> = map (\<lambda>k. Inr (els ! k, [])) (map (\<lambda>p. nat (dot p st)) (positions S))"
    by (simp add: comp_def)
  also have "\<dots> = map (\<lambda>x. Inr (x, [])) (map (\<lambda>k. els ! k) [0..<length els])"
    by (simp add: enum comp_def)
  also have "\<dots> = map (\<lambda>x. Inr (x, [])) els"
    by (simp only: map_nth)
  finally have 1: "map (\<lambda>p. at t p CHR ''N'') (positions S) = map (\<lambda>x. Inr (x, [])) els" .
  have 2: "set (positions S) = {p. valid_position S p}"
    using valid valid_positions [of _ S] by (auto simp: valid_position_def)
  have 3: "\<exists>k. flat_index_of t c = Inr k \<and> unat k < unat (total_elements t)
              \<and> uint k = dot c (stride t)" if "valid_position S c" for c
  proof -
    note f = flat_index_of_valid [OF assms(1,2) that]
    have "uint (word_of_int (dot c (stride t)) :: size_t) = dot c (stride t)"
      using f uint_nat [of "word_of_int (dot c (stride t)) :: size_t"] by simp
    then show ?thesis using f n by simp
  qed
  have 4: "flat_index_of t c \<noteq> flat_index_of t c'"
    if "valid_position S c" "valid_position S c'" "c \<noteq> c'" for c c'
  proof
    assume eq: "flat_index_of t c = flat_index_of t c'"
    note f = flat_index_of_valid [OF assms(1,2) that(1)]
    note f' = flat_index_of_valid [OF assms(1,2) that(2)]
    have "nat (dot c (stride t)) = nat (dot c' (stride t))" using eq f f' by simp
    moreover have "0 \<le> dot c (stride t)" "0 \<le> dot c' (stride t)" using f f' by simp_all
    ultimately have "dot c (stride t) = dot c' (stride t)" by linarith
    then have "dot c st = dot c' st" using *(4) by simp
    then have "c = c'"
      using dot_inj [OF _ _ st le'] that(1,2) by (simp add: valid_position_def)
    then show False using that(3) by simp
  qed
  show ?thesis using 1 2 3 4 by blast
qed

text \<open>At the Tensor of shape \<open>[2, 3]\<close> over \<open>[0, 1, 2, 3, 4, 5]\<close>.\<close>

theorem row_major_round_trip_witness:
  "new_tensor 0 [2, 3] [0, 1, 2, 3, 4, 5] = Inr tensor_2x3
   \<and> positive_shape [2, 3]
   \<and> [0, 1, 2, 3, 4, 5 :: int] \<noteq> []
   \<and> map (\<lambda>p. at tensor_2x3 p CHR ''N'') (positions [2, 3])
        = map (\<lambda>x. Inr (x, [])) [0, 1, 2, 3, 4, 5]
   \<and> set (positions [2, 3]) = {p. valid_position [2, 3] p}
   \<and> valid_position [2, 3] [1, 2]
   \<and> valid_position [2, 3] [0, 1]
   \<and> (\<exists>k. flat_index_of tensor_2x3 [1, 2] = Inr k
          \<and> unat k < unat (total_elements tensor_2x3)
          \<and> uint k = dot [1, 2] (stride tensor_2x3))
   \<and> flat_index_of tensor_2x3 [1, 2] \<noteq> flat_index_of tensor_2x3 [0, 1]"
proof -
  have h2: "positive_shape [2, 3]" by (simp add: positive_shape_def)
  have h3: "[0, 1, 2, 3, 4, 5 :: int] \<noteq> []" by simp
  have v1: "valid_position [2, 3] [1, 2]" by (simp add: valid_position_def)
  have v2: "valid_position [2, 3] [0, 1]" by (simp add: valid_position_def)
  have ne: "[1, 2] \<noteq> [0, 1 :: int32]" by simp
  note r = row_major_round_trip [OF new_tensor_2x3 h2 h3]
  have r1: "map (\<lambda>p. at tensor_2x3 p CHR ''N'') (positions [2, 3])
        = map (\<lambda>x. Inr (x, [])) [0, 1, 2, 3, 4, 5]"
    using r by (rule conjunct1)
  have r2: "set (positions [2, 3]) = {p. valid_position [2, 3] p}"
    using r by blast
  have r3: "\<exists>k. flat_index_of tensor_2x3 [1, 2] = Inr k
          \<and> unat k < unat (total_elements tensor_2x3)
          \<and> uint k = dot [1, 2] (stride tensor_2x3)"
    using r v1 by blast
  have r4: "flat_index_of tensor_2x3 [1, 2] \<noteq> flat_index_of tensor_2x3 [0, 1]"
    using r v1 v2 ne by blast
  show ?thesis
    by (intro conjI new_tensor_2x3 h2 h3 r1 r2 r3 r4 v1 v2)
qed

text \<open>
  C5 fails on the code.  \<open>at\<close> checks \<open>position[i] >= shape[i]\<close> only, so a negative
  component is not rejected with \<open>IndexOutOfRange\<close>: on the Tensor of shape \<open>[2, 3]\<close> over
  \<open>[0, 1, 2, 3, 4, 5]\<close> the coordinate \<open>[1, -1]\<close> reads element 2, and \<open>[-1, 0]\<close> reads
  beyond the buffer, at the flat index \<open>2^64 - 3\<close>.
\<close>

theorem negative_coordinate_read:
  "new_tensor 0 [2, 3] [0, 1, 2, 3, 4, 5] = Inr tensor_2x3
   \<and> at tensor_2x3 [1, - 1] CHR ''N'' = Inr (2, [])
   \<and> at tensor_2x3 [- 1, 0] CHR ''N'' = Inl (Undefined OutOfBoundsRead)"
proof -
  have a: "at tensor_2x3 [1, - 1] CHR ''N'' = Inr (2, [])"
    by (simp add: tensor_2x3_def at_def flat_index_of_def at_loop.simps read_element_def
        mul_int_def INT_MIN_def INT_MAX_def int_to_size_t_def)
  have f: "flat_index_of tensor_2x3 [- 1, 0] = Inr (- 3)"
    by (simp add: tensor_2x3_def flat_index_of_def at_loop.simps
        mul_int_def INT_MIN_def INT_MAX_def int_to_size_t_def)
  have "length (elements tensor_2x3) = 6" by (simp add: tensor_2x3_def)
  moreover have "unat (- 3 :: size_t) = 18446744073709551613" by simp
  ultimately have "read_element tensor_2x3 (- 3) = Inl (Undefined OutOfBoundsRead)"
    by (simp add: read_element_def)
  then have b: "at tensor_2x3 [- 1, 0] CHR ''N'' = Inl (Undefined OutOfBoundsRead)"
    using f by (simp add: at_def)
  show ?thesis using new_tensor_2x3 a b by simp
qed

text \<open>
  C10.  The element (or the failure) that \<open>at\<close> returns is the same for the print modes
  \<open>'Y'\<close> and \<open>'N'\<close>; the mode decides only whether the element is echoed.
\<close>

theorem print_mode_independent:
  "map_sum (\<lambda>e. e) fst (at t p CHR ''Y'') = map_sum (\<lambda>e. e) fst (at t p CHR ''N'')
     \<and> at t p CHR ''Y'' = map_sum (\<lambda>e. e) (\<lambda>(x, out). (x, [x])) (at t p CHR ''N'')
     \<and> map_sum (\<lambda>e. e) snd (at t p CHR ''N'') = map_sum (\<lambda>e. e) (\<lambda>r. []) (at t p CHR ''Y'')"
  by (auto simp: at_def split: sum.splits)

section \<open>Properties of the elementwise transform\<close>

text \<open>
  C7.  On a constructed Tensor, \<open>element_wise_apply\<close> returns the Tensor with the same
  shape, strides and \<open>total_elements\<close> whose buffer is \<open>f\<close> applied to each element in
  buffer order; the identity gives back an equal Tensor.  The original is a value that
  the function does not change.
\<close>

theorem element_wise_apply_result:
  assumes "new_tensor dflt S els = Inr t"
  shows "element_wise_apply dflt t f = Inr (t\<lparr>elements := map f (elements t)\<rparr>)
     \<and> element_wise_apply dflt t (\<lambda>x. x) = Inr t"
proof -
  have "element_wise_apply dflt t g = Inr (t\<lparr>elements := map g (elements t)\<rparr>)" for g
    using new_tensor_rebuild [OF new_tensor_initialize [OF assms], of "map g (elements t)"]
    by (simp add: element_wise_apply_def apply_loop_map)
  from this [of f] this [of "\<lambda>x. x"] show ?thesis by simp
qed

text \<open>At the Tensor of shape \<open>[2, 3]\<close>, doubling each element.\<close>

theorem element_wise_apply_result_witness:
  "new_tensor 0 [2, 3] [0, 1, 2, 3, 4, 5] = Inr tensor_2x3
   \<and> element_wise_apply 0 tensor_2x3 (\<lambda>x. 2 * x) =
       Inr \<lparr>shape = [2, 3], stride = [3, 1], elements = [0, 2, 4, 6, 8, 10],
            total_elements = 6\<rparr>
   \<and> element_wise_apply 0 tensor_2x3 (\<lambda>x. x) = Inr tensor_2x3"
  using new_tensor_2x3 element_wise_apply_result [OF new_tensor_2x3, of "\<lambda>x. 2 * x"]
  by (simp add: tensor_2x3_def)

end
